theory Spec2Isabelle
  imports Main "HOL-Library.Sublist"
begin

section \<open>Characters and text\<close>

text \<open>
  Text is a list of characters, as Python's \<^verbatim>\<open>str\<close>. A managed file is modelled by the
  text that a text-mode \<^verbatim>\<open>file.read()\<close> returns and that \<^verbatim>\<open>file.write()\<close> stores.
\<close>

definition NL :: char where
  "NL = CHR 0x0A"

definition TAB :: char where
  "TAB = CHR 0x09"

definition DQ :: char where
  "DQ = CHR 0x22"

section \<open>The fragment of Python's \<^verbatim>\<open>re\<close> that the source uses\<close>

text \<open>
  The three patterns matched by the block editor and by the passphrase scrubber are
  sequences of literal characters and of greedy repetitions of one character class:
  \<^verbatim>\<open>.+\<close> (with \<^verbatim>\<open>re.DOTALL\<close>, so the class is every character), \<^verbatim>\<open>\t*\<close> and
  \<^verbatim>\<open>[^\n"]+\<close>. A class is the predicate of its members.
\<close>

datatype item = Chr char | Star "char \<Rightarrow> bool" | Plus "char \<Rightarrow> bool"

type_synonym pattern = "item list"

text \<open>
  \<open>match_here p s\<close> is \<^verbatim>\<open>re.match\<close> at the start of \<open>s\<close>: a backtracking matcher that
  tries the longest repetition first and gives back one character at a time. The result
  is the text left after the match, \<open>None\<close> when there is no match.
\<close>

fun match_here :: "pattern \<Rightarrow> string \<Rightarrow> string option" where
  "match_here [] s = Some s"
| "match_here (Chr c # p) [] = None"
| "match_here (Chr c # p) (x # xs) = (if x = c then match_here p xs else None)"
| "match_here (Star f # p) [] = match_here p []"
| "match_here (Star f # p) (x # xs) =
     (if f x
      then (case match_here (Star f # p) xs of
              Some r \<Rightarrow> Some r
            | None \<Rightarrow> match_here p (x # xs))
      else match_here p (x # xs))"
| "match_here (Plus f # p) [] = None"
| "match_here (Plus f # p) (x # xs) =
     (if f x then match_here (Star f # p) xs else None)"

text \<open>
  \<open>re_sub p repl s\<close> is \<^verbatim>\<open>re.sub(p, repl, s)\<close> for a replacement text without
  backslash escapes (the source only ever replaces by the empty text): the leftmost
  match is replaced and the scan goes on behind it; where nothing matches, the character
  is kept. An empty match is replaced too and the scan moves one character on.
\<close>

function re_sub :: "pattern \<Rightarrow> string \<Rightarrow> string \<Rightarrow> string" where
  "re_sub p repl s =
     (case match_here p s of
        Some r \<Rightarrow>
          (if length r < length s then repl @ re_sub p repl r
           else (case s of [] \<Rightarrow> repl | x # xs \<Rightarrow> repl @ x # re_sub p repl xs))
      | None \<Rightarrow> (case s of [] \<Rightarrow> [] | x # xs \<Rightarrow> x # re_sub p repl xs))"
  by pat_completeness auto
termination
  by (relation "measure (\<lambda>(p, repl, s). length s)") auto

declare re_sub.simps [simp del]

definition lits :: "string \<Rightarrow> pattern" where
  "lits cs = map Chr cs"

abbreviation any_char :: "char \<Rightarrow> bool" where
  "any_char \<equiv> (\<lambda>c. True)"

section \<open>The configuration block editor\<close>

datatype error = FileNotFoundError string | CalledProcessError "string list"

type_synonym filesystem = "string \<rightharpoonup> string"

text \<open>
  \<^verbatim>\<open>"#<begin_{id}_entry>"\<close> and \<^verbatim>\<open>"#<end_{id}_entry>"\<close> with the identifier formatted in.
\<close>

definition begin_marker :: "string \<Rightarrow> string" where
  "begin_marker ident = ''#<begin_'' @ ident @ ''_entry>''"

definition end_marker :: "string \<Rightarrow> string" where
  "end_marker ident = ''#<end_'' @ ident @ ''_entry>''"

text \<open>
  The pattern \<^verbatim>\<open>r"#<begin_{id}_entry>.+#<end_{id}_entry>"\<close> of
  \<^verbatim>\<open>remove_entry_from_config\<close>. The identifier is formatted into the pattern unescaped;
  the model reads its characters as literals, which is what \<^verbatim>\<open>re\<close> does for the
  characters accepted by \<open>ident_ok\<close> (letters, digits and the underscore, like the
  default \<^verbatim>\<open>"rpiwifi"\<close> that every caller in the source uses).
\<close>

definition entry_pattern :: "string \<Rightarrow> pattern" where
  "entry_pattern ident =
     lits (begin_marker ident) @ Plus any_char # lits (end_marker ident)"

definition word_chars :: string where
  "word_chars =
     ''abcdefghijklmnopqrstuvwxyzABCDEFGHIJKLMNOPQRSTUVWXYZ0123456789_''"

definition ident_ok :: "string \<Rightarrow> bool" where
  "ident_ok ident = list_all (\<lambda>c. c \<in> set word_chars) ident"

text \<open>
  \<^verbatim>\<open>replace_in_file(filepath, source, target, regex=True)\<close>: the file is read whole and
  rewritten whole. Opening a file that does not exist for reading raises.
\<close>

definition replace_in_file ::
  "filesystem \<Rightarrow> string \<Rightarrow> pattern \<Rightarrow> string \<Rightarrow> error + filesystem" where
  "replace_in_file fs filepath source target =
     (case fs filepath of
        None \<Rightarrow> Inl (FileNotFoundError filepath)
      | Some content \<Rightarrow> Inr (fs(filepath \<mapsto> re_sub source target content)))"

definition remove_entry_from_config ::
  "filesystem \<Rightarrow> string \<Rightarrow> string \<Rightarrow> error + filesystem" where
  "remove_entry_from_config fs filepath ident =
     replace_in_file fs filepath (entry_pattern ident) []"

text \<open>The text that \<^verbatim>\<open>add_entry_to_config\<close> writes behind the file's content.\<close>

definition entry_block :: "string \<Rightarrow> string \<Rightarrow> string" where
  "entry_block ident entry =
     begin_marker ident @ [NL] @ entry @ [NL] @ end_marker ident @ [NL]"

text \<open>Mode \<^verbatim>\<open>"a"\<close> appends to the file and creates it when it is missing.\<close>

definition append_to_file :: "filesystem \<Rightarrow> string \<Rightarrow> string \<Rightarrow> filesystem" where
  "append_to_file fs filepath text =
     (case fs filepath of
        None \<Rightarrow> fs(filepath \<mapsto> text)
      | Some content \<Rightarrow> fs(filepath \<mapsto> content @ text))"

definition add_entry_to_config ::
  "filesystem \<Rightarrow> string \<Rightarrow> string \<Rightarrow> string \<Rightarrow> error + filesystem" where
  "add_entry_to_config fs entry filepath ident =
     (case remove_entry_from_config fs filepath ident of
        Inl e \<Rightarrow> Inl e
      | Inr fs' \<Rightarrow> Inr (append_to_file fs' filepath (entry_block ident entry)))"

text \<open>
  Reading a file of the result of an editor call: \<open>None\<close> when the call raised or the
  file does not exist. \<open>single_file\<close> is a file system that holds one file.
\<close>

definition content_after :: "error + filesystem \<Rightarrow> string \<Rightarrow> string option" where
  "content_after res filepath =
     (case res of Inl e \<Rightarrow> None | Inr fs \<Rightarrow> fs filepath)"

definition single_file :: "string \<Rightarrow> string \<Rightarrow> filesystem" where
  "single_file filepath content = Map.empty(filepath \<mapsto> content)"

subsection \<open>Vocabulary of the properties of the block editor\<close>

text \<open>
  \<open>has_span b e s\<close>: text \<open>s\<close> holds the marker \<open>b\<close> and, somewhere behind it, the
  marker \<open>e\<close>. \<open>occurrences m s\<close> counts the places of \<open>s\<close> where \<open>m\<close> starts, and
  \<open>entry_count ident s\<close> the begin markers of \<open>s\<close> that an end marker closes.
  \<open>starts_line s i\<close>: offset \<open>i\<close> of \<open>s\<close> is the first of a line.
\<close>

fun has_span :: "string \<Rightarrow> string \<Rightarrow> string \<Rightarrow> bool" where
  "has_span b e [] = (b = [] \<and> e = [])"
| "has_span b e (x # xs) =
     ((prefix b (x # xs) \<and> sublist e (drop (length b) (x # xs))) \<or> has_span b e xs)"

fun occurrences :: "string \<Rightarrow> string \<Rightarrow> nat" where
  "occurrences m [] = (if m = [] then 1 else 0)"
| "occurrences m (x # xs) = (if prefix m (x # xs) then 1 else 0) + occurrences m xs"

fun entry_count :: "string \<Rightarrow> string \<Rightarrow> nat" where
  "entry_count ident [] = 0"
| "entry_count ident (x # xs) =
     (if prefix (begin_marker ident) (x # xs)
         \<and> sublist (end_marker ident) (drop (length (begin_marker ident)) (x # xs))
      then 1 else 0) + entry_count ident xs"


text \<open>A sequence of editor calls on one file with one identifier; it stops at the first error.\<close>

datatype edit = Add string | Remove

fun apply_edit :: "string \<Rightarrow> string \<Rightarrow> filesystem \<Rightarrow> edit \<Rightarrow> error + filesystem" where
  "apply_edit filepath ident fs (Add entry) = add_entry_to_config fs entry filepath ident"
| "apply_edit filepath ident fs Remove = remove_entry_from_config fs filepath ident"

fun apply_edits :: "string \<Rightarrow> string \<Rightarrow> filesystem \<Rightarrow> edit list \<Rightarrow> error + filesystem" where
  "apply_edits filepath ident fs [] = Inr fs"
| "apply_edits filepath ident fs (ed # eds) =
     (case apply_edit filepath ident fs ed of
        Inl e \<Rightarrow> Inl e
      | Inr fs' \<Rightarrow> apply_edits filepath ident fs' eds)"

text \<open>
  A text without a marker of the identifier, and an editor call whose entry is such a text.
\<close>

definition marker_free :: "string \<Rightarrow> string \<Rightarrow> bool" where
  "marker_free ident s =
     (\<not> sublist (begin_marker ident) s \<and> \<not> sublist (end_marker ident) s)"

fun plain_edit :: "string \<Rightarrow> edit \<Rightarrow> bool" where
  "plain_edit ident (Add entry) = marker_free ident entry"
| "plain_edit ident Remove = True"

section \<open>The mode controller\<close>

text \<open>
  The world of a controller call: the managed files, the external programs invoked so
  far (in order) and the lines printed. The environment answers an invocation of
  \<^verbatim>\<open>subprocess.check_output\<close> with the program's output, or with \<open>None\<close> for a non-zero
  exit status, which raises.
\<close>

record world =
  files :: filesystem
  invoked :: "string list list"
  printed :: "string list"

type_synonym environment = "string list \<Rightarrow> string option"

type_synonym 'a action = "world \<Rightarrow> (error + 'a) \<times> world"

definition run :: "environment \<Rightarrow> string list \<Rightarrow> string action" where
  "run env cmd w =
     ((case env cmd of None \<Rightarrow> Inl (CalledProcessError cmd) | Some out \<Rightarrow> Inr out),
      w\<lparr>invoked := invoked w @ [cmd]\<rparr>)"

definition and_then :: "'a action \<Rightarrow> ('a \<Rightarrow> 'b action) \<Rightarrow> 'b action" where
  "and_then m k w = (case m w of (Inl e, w') \<Rightarrow> (Inl e, w') | (Inr a, w') \<Rightarrow> k a w')"

definition done_with :: "'a \<Rightarrow> 'a action" where
  "done_with a w = (Inr a, w)"

definition on_files :: "(filesystem \<Rightarrow> error + filesystem) \<Rightarrow> unit action" where
  "on_files f w =
     (case f (files w) of Inl e \<Rightarrow> (Inl e, w) | Inr fs \<Rightarrow> (Inr (), w\<lparr>files := fs\<rparr>))"

definition WPA_SUPPLICANT_CONF :: string where
  "WPA_SUPPLICANT_CONF = ''/etc/wpa_supplicant/wpa_supplicant.conf''"

definition DHCPCD_CONF :: string where
  "DHCPCD_CONF = ''/etc/dhcpcd.conf''"

definition AP_MODE :: string where
  "AP_MODE = ''AP''"

definition CLI_MODE :: string where
  "CLI_MODE = ''CLI''"

text \<open>The default identifier of \<^verbatim>\<open>add_entry_to_config\<close> and \<^verbatim>\<open>remove_entry_from_config\<close>.\<close>

definition default_identifier :: string where
  "default_identifier = ''rpiwifi''"

text \<open>Python's truth value of an optional text: \<^verbatim>\<open>None\<close> and \<^verbatim>\<open>""\<close> are false.\<close>

fun truthy :: "string option \<Rightarrow> bool" where
  "truthy None = False"
| "truthy (Some s) = (s \<noteq> [])"

text \<open>The text of an argument that is known to be true.\<close>

fun text_of :: "string option \<Rightarrow> string" where
  "text_of None = []"
| "text_of (Some s) = s"

text \<open>
  The pattern \<^verbatim>\<open>r'\t*#psk="[^\n"]+"\n'\<close> and the substitution that
  \<^verbatim>\<open>set_cli_mode\<close> applies to the output of \<^verbatim>\<open>wpa_passphrase\<close>.
\<close>

definition psk_comment :: string where
  "psk_comment = ''#psk='' @ [DQ]"

definition psk_pattern :: pattern where
  "psk_pattern =
     Star (\<lambda>c. c = TAB) # lits psk_comment
       @ Plus (\<lambda>c. c \<noteq> NL \<and> c \<noteq> DQ) # lits [DQ, NL]"

definition scrub :: "string \<Rightarrow> string" where
  "scrub raw = re_sub psk_pattern [] raw"

definition warning :: string where
  "warning = ''[WARNING] Unencrypted networks are not implemented yet.''"

text \<open>
  \<^verbatim>\<open>set_cli_mode(ssid, password)\<close> of a controller for interface \<open>iface\<close>. The sleep
  between the restart of the DHCP client and the reconfiguration has no effect on the
  world and is left out.
\<close>

definition set_cli_mode ::
  "environment \<Rightarrow> string \<Rightarrow> string option \<Rightarrow> string option \<Rightarrow> bool action" where
  "set_cli_mode env iface ssid password w =
     (if \<not> truthy password
      then (Inr False, w\<lparr>printed := printed w @ [warning]\<rparr>)
      else
        and_then (run env [''dhcpcd'', ''--release'', iface]) (\<lambda>_.
        and_then (run env [''service'', ''dhcpcd'', ''stop'']) (\<lambda>_.
        and_then
          (if truthy ssid
           then and_then (run env [''/usr/bin/wpa_passphrase'', text_of ssid, text_of password])
                  (\<lambda>entry. on_files (\<lambda>fs.
                     add_entry_to_config fs (scrub entry) WPA_SUPPLICANT_CONF
                       default_identifier))
           else done_with ()) (\<lambda>_.
        and_then (on_files (\<lambda>fs.
           remove_entry_from_config fs DHCPCD_CONF default_identifier)) (\<lambda>_.
        and_then (run env [''systemctl'', ''stop'', ''hostapd.service'', ''dnsmasq.service''])
          (\<lambda>_.
        and_then
          (run env [''systemctl'', ''disable'', ''hostapd.service'', ''dnsmasq.service''])
          (\<lambda>_.
        and_then (run env [''service'', ''dhcpcd'', ''start'']) (\<lambda>_.
        and_then (run env [''wpa_cli'', ''-i'', iface, ''reconfigure'']) (\<lambda>_.
        done_with True)))))))) w)"

text \<open>
  \<^verbatim>\<open>get_mode()\<close>: \<open>call\<close> is \<^verbatim>\<open>subprocess.call\<close>, which returns the exit status of the
  program.
\<close>

definition get_mode :: "(string list \<Rightarrow> int) \<Rightarrow> string" where
  "get_mode call =
     (if call [''systemctl'', ''-q'', ''is-active'', ''hostapd''] = 0
      then AP_MODE else CLI_MODE)"

section \<open>The network scanner\<close>

text \<open>
  A cell of the scanning library, with the two attributes the controller reads. The
  quality is of any linearly ordered type.
\<close>

record 'q cell =
  ssid :: string
  quality :: 'q

text \<open>
  A Python \<^verbatim>\<open>dict\<close> keeps its keys in the order of their first insertion; storing
  under a key that is present replaces the value in place.
\<close>

fun dict_set :: "'k \<Rightarrow> 'v \<Rightarrow> ('k \<times> 'v) list \<Rightarrow> ('k \<times> 'v) list" where
  "dict_set k v [] = [(k, v)]"
| "dict_set k v ((k', v') # d) =
     (if k' = k then (k', v) # d else (k', v') # dict_set k v d)"

definition dict_values :: "('k \<times> 'v) list \<Rightarrow> 'v list" where
  "dict_values d = map snd d"

text \<open>\<^verbatim>\<open>list({cell.ssid: cell for cell in cells}.values())\<close>\<close>

definition unique_cells :: "'q cell list \<Rightarrow> 'q cell list" where
  "unique_cells cells = dict_values (fold (\<lambda>c d. dict_set (ssid c) c d) cells [])"

text \<open>
  \<^verbatim>\<open>list.sort(key=..., reverse=True)\<close> is stable: elements with equal keys keep their
  order.
\<close>

fun insort_reverse :: "('a \<Rightarrow> 'q::linorder) \<Rightarrow> 'a \<Rightarrow> 'a list \<Rightarrow> 'a list" where
  "insort_reverse key x [] = [x]"
| "insort_reverse key x (y # ys) =
     (if key y \<le> key x then x # y # ys else y # insort_reverse key x ys)"

definition sort_reverse :: "('a \<Rightarrow> 'q::linorder) \<Rightarrow> 'a list \<Rightarrow> 'a list" where
  "sort_reverse key xs = foldr (insort_reverse key) xs []"

text \<open>
  The scan loop: \<open>scan i\<close> is the outcome of the \<open>i\<close>-th call of \<^verbatim>\<open>wifi.Cell.all\<close>,
  \<open>None\<close> for an \<^verbatim>\<open>InterfaceError\<close>, after which the interface is brought up and the
  scan is tried again (the sleep is left out); after three failures the cells are empty.
\<close>

fun scan_loop ::
  "(nat \<Rightarrow> 'q cell list option) \<Rightarrow> environment \<Rightarrow> string \<Rightarrow> nat list
     \<Rightarrow> ('q cell list) action" where
  "scan_loop scan env iface [] w = (Inr [], w)"
| "scan_loop scan env iface (i # rest) w =
     (case scan i of
        Some cells \<Rightarrow> (Inr cells, w)
      | None \<Rightarrow>
          (case run env [''ifconfig'', iface, ''up''] w of
             (Inl e, w') \<Rightarrow> (Inl e, w')
           | (Inr out, w') \<Rightarrow> scan_loop scan env iface rest w'))"

definition list_available_wifis ::
  "(nat \<Rightarrow> ('q::linorder) cell list option) \<Rightarrow> environment \<Rightarrow> string
     \<Rightarrow> ('q cell list) action" where
  "list_available_wifis scan env iface w =
     (case scan_loop scan env iface [0, 1, 2] w of
        (Inl e, w') \<Rightarrow> (Inl e, w')
      | (Inr cells, w') \<Rightarrow> (Inr (sort_reverse quality (unique_cells cells)), w'))"

section \<open>Facts about the matcher\<close>

lemma match_lits_append: "match_here (lits m @ p) (m @ s) = match_here p s"
  by (induction m) (simp_all add: lits_def)

lemma match_lits_Some:
  "match_here (lits m @ p) s = Some r \<Longrightarrow> \<exists>t. s = m @ t \<and> match_here p t = Some r"
proof (induction m arbitrary: s)
  case Nil
  then show ?case by (simp add: lits_def)
next
  case (Cons c m)
  then show ?case
    by (cases s) (auto simp: lits_def split: if_splits)
qed

lemma match_lits_not_prefix:
  "\<not> prefix m s \<Longrightarrow> match_here (lits m @ p) s = None"
  using match_lits_Some [of m p s] by (cases "match_here (lits m @ p) s") auto

lemma match_lits_only: "match_here (lits m) s = Some r \<Longrightarrow> s = m @ r"
  using match_lits_Some [of m "[]" s r] by simp

lemma star_any_Some:
  "match_here (Star any_char # lits e) s = Some r \<Longrightarrow> \<exists>u. s = u @ e @ r"
proof (induction s)
  case Nil
  then show ?case by (auto dest: match_lits_only)
next
  case (Cons x xs)
  show ?case
  proof (cases "match_here (Star any_char # lits e) xs")
    case None
    with Cons.prems have "match_here (lits e) (x # xs) = Some r"
      by simp
    then have "x # xs = [] @ e @ r" by (auto dest: match_lits_only)
    then show ?thesis by blast
  next
    case (Some r')
    with Cons.prems have "r' = r" by simp
    with Some Cons.IH obtain u where "xs = u @ e @ r" by blast
    then have "x # xs = (x # u) @ e @ r" by simp
    then show ?thesis by blast
  qed
qed

lemma star_any_None:
  "\<not> sublist e s \<Longrightarrow> match_here (Star any_char # lits e) s = None"
  using star_any_Some [of e s] by (cases "match_here (Star any_char # lits e) s") (auto simp: sublist_def)

lemma star_any_greedy:
  assumes "e \<noteq> []" and "\<not> sublist e (tl (e @ post))"
  shows "match_here (Star any_char # lits e) (u @ e @ post) = Some post"
proof (induction u)
  case Nil
  from assms(1) obtain c e' where e: "e = c # e'" by (cases e) auto
  have "match_here (Star any_char # lits e) (e' @ post) = None"
    using assms(2) e by (simp add: star_any_None)
  moreover have "match_here (lits e) (e @ post) = Some post"
    using match_lits_append [of e "[]" post] by simp
  ultimately show ?case using e by simp
next
  case (Cons x u)
  then show ?case by simp
qed

lemma match_entry_Some:
  assumes "match_here (entry_pattern ident) t = Some r"
  shows "\<exists>mid. mid \<noteq> [] \<and> t = begin_marker ident @ mid @ end_marker ident @ r"
proof -
  from assms obtain t' where t: "t = begin_marker ident @ t'"
    and m: "match_here (Plus any_char # lits (end_marker ident)) t' = Some r"
    unfolding entry_pattern_def by (blast dest: match_lits_Some)
  from m obtain x xs where t': "t' = x # xs"
    and s: "match_here (Star any_char # lits (end_marker ident)) xs = Some r"
    by (cases t') auto
  from s obtain u where "xs = u @ end_marker ident @ r" by (blast dest: star_any_Some)
  with t t' have "t = begin_marker ident @ (x # u) @ end_marker ident @ r" by simp
  then show ?thesis by blast
qed

lemma match_entry_greedy:
  assumes "mid \<noteq> []" and "\<not> sublist (end_marker ident) (tl (end_marker ident @ post))"
  shows "match_here (entry_pattern ident)
           (begin_marker ident @ mid @ end_marker ident @ post) = Some post"
proof -
  from assms(1) obtain x u where mid: "mid = x # u" by (cases mid) auto
  have ne: "end_marker ident \<noteq> []" by (simp add: end_marker_def)
  have "match_here (Star any_char # lits (end_marker ident)) (u @ end_marker ident @ post) = Some post"
    using ne assms(2) by (rule star_any_greedy)
  then have "match_here (Plus any_char # lits (end_marker ident)) (mid @ end_marker ident @ post) = Some post"
    by (simp add: mid)
  then show ?thesis
    unfolding entry_pattern_def by (simp add: match_lits_append)
qed

lemma re_sub_no_match:
  "(\<And>t. suffix t s \<Longrightarrow> match_here p t = None) \<Longrightarrow> re_sub p repl s = s"
proof (induction s)
  case Nil
  then show ?case by (simp add: re_sub.simps)
next
  case (Cons x xs)
  have "match_here p (x # xs) = None" using Cons.prems by simp
  moreover have "re_sub p repl xs = xs"
    using Cons.prems by (intro Cons.IH) (simp add: suffix_Cons)
  ultimately show ?case by (simp add: re_sub.simps [of p repl "x # xs"])
qed

lemma re_sub_skip:
  "(\<And>t. t \<noteq> [] \<Longrightarrow> suffix t pre \<Longrightarrow> match_here p (t @ s) = None)
   \<Longrightarrow> re_sub p repl (pre @ s) = pre @ re_sub p repl s"
proof (induction pre)
  case Nil
  then show ?case by simp
next
  case (Cons x xs)
  have "match_here p ((x # xs) @ s) = None" using Cons.prems by blast
  moreover have "re_sub p repl (xs @ s) = xs @ re_sub p repl s"
    using Cons.prems by (intro Cons.IH) (simp add: suffix_Cons)
  ultimately show ?case by (simp add: re_sub.simps [of p repl "x # xs @ s"])
qed

lemma re_sub_match:
  "match_here p s = Some r \<Longrightarrow> length r < length s \<Longrightarrow> re_sub p repl s = repl @ re_sub p repl r"
  by (simp add: re_sub.simps [of p repl s])

section \<open>Facts about the markers\<close>

lemma ident_ok_chars: "ident_ok ident \<Longrightarrow> c \<in> set ident \<Longrightarrow> c \<in> set word_chars"
  by (simp add: ident_ok_def list_all_iff)

lemma hash_not_in_ident: "ident_ok ident \<Longrightarrow> CHR ''#'' \<notin> set ident"
  by (auto dest: ident_ok_chars simp: word_chars_def)

lemma NL_not_in_ident: "ident_ok ident \<Longrightarrow> NL \<notin> set ident"
  by (auto dest: ident_ok_chars simp: word_chars_def NL_def)

lemma begin_marker_Cons: "begin_marker ident = CHR ''#'' # tl (begin_marker ident)"
  by (simp add: begin_marker_def)

lemma end_marker_Cons: "end_marker ident = CHR ''#'' # tl (end_marker ident)"
  by (simp add: end_marker_def)

lemma hash_not_in_tl_begin: "ident_ok ident \<Longrightarrow> CHR ''#'' \<notin> set (tl (begin_marker ident))"
  by (simp add: begin_marker_def hash_not_in_ident)

lemma hash_not_in_tl_end: "ident_ok ident \<Longrightarrow> CHR ''#'' \<notin> set (tl (end_marker ident))"
  by (simp add: end_marker_def hash_not_in_ident)

lemma NL_not_in_begin: "ident_ok ident \<Longrightarrow> NL \<notin> set (begin_marker ident)"
  by (simp add: begin_marker_def NL_not_in_ident) (simp add: NL_def)

lemma NL_not_in_end: "ident_ok ident \<Longrightarrow> NL \<notin> set (end_marker ident)"
  by (simp add: end_marker_def NL_not_in_ident) (simp add: NL_def)

lemma prefix_before_char:
  assumes "c \<notin> set m" and "prefix m (d @ c # r)"
  shows "prefix m d"
proof -
  from assms(2) have "prefix m d \<or> (\<exists>us. m = d @ us \<and> prefix us (c # r))"
    by (simp add: prefix_append)
  then show ?thesis
  proof
    assume "prefix m d" then show ?thesis .
  next
    assume "\<exists>us. m = d @ us \<and> prefix us (c # r)"
    then obtain us where m: "m = d @ us" and us: "prefix us (c # r)" by blast
    show ?thesis
    proof (cases us)
      case Nil
      with m show ?thesis by simp
    next
      case (Cons a us')
      with us have "a = c" by simp
      with Cons m assms(1) show ?thesis by simp
    qed
  qed
qed

lemma no_straddle:
  assumes "c \<notin> set m'" and "\<not> sublist (c # m') pre" and "t \<noteq> []" and "suffix t pre"
  shows "\<not> prefix (c # m') (t @ c # rest)"
proof
  assume p: "prefix (c # m') (t @ c # rest)"
  from assms(3) obtain a t' where t: "t = a # t'" by (cases t) auto
  with p have a: "a = c" and "prefix m' (t' @ c # rest)" by auto
  with assms(1) have "prefix m' t'" by (blast intro: prefix_before_char)
  with a t have "prefix (c # m') t" by simp
  then have "sublist (c # m') t" by (rule prefix_imp_sublist)
  moreover from assms(4) have "sublist t pre" by (rule suffix_imp_sublist)
  ultimately have "sublist (c # m') pre" by (rule sublist_order.order_trans)
  with assms(2) show False by contradiction
qed

lemma sublist_across_char:
  assumes "c \<notin> set m" and "m \<noteq> []"
  shows "sublist m (x @ c # y) \<longleftrightarrow> sublist m x \<or> sublist m y"
proof
  assume "sublist m (x @ c # y)"
  then show "sublist m x \<or> sublist m y"
  proof (induction x)
    case Nil
    then have "prefix m (c # y) \<or> sublist m y" by (simp add: sublist_Cons_right)
    moreover have "\<not> prefix m (c # y)" using assms by (cases m) auto
    ultimately show ?case by simp
  next
    case (Cons a x)
    then have "prefix m (a # x @ c # y) \<or> sublist m (x @ c # y)"
      by (simp add: sublist_Cons_right)
    then show ?case
    proof
      assume "prefix m (a # x @ c # y)"
      then have "prefix m ((a # x) @ c # y)" by simp
      with assms(1) have "prefix m (a # x)" by (rule prefix_before_char)
      then show ?thesis by blast
    next
      assume "sublist m (x @ c # y)"
      with Cons.IH show ?thesis by (auto simp: sublist_Cons_right)
    qed
  qed
next
  assume "sublist m x \<or> sublist m y"
  then show "sublist m (x @ c # y)"
  proof
    assume "sublist m x"
    then obtain u v where "x = u @ m @ v" by (auto simp: sublist_def)
    then have "x @ c # y = u @ m @ (v @ c # y)" by simp
    then show ?thesis unfolding sublist_def by blast
  next
    assume "sublist m y"
    then obtain u v where "y = u @ m @ v" by (auto simp: sublist_def)
    then have "x @ c # y = (x @ c # u) @ m @ v" by simp
    then show ?thesis unfolding sublist_def by blast
  qed
qed

lemma sublist_head_unique:
  assumes "c \<notin> set m'" and "sublist (c # e') (c # m')"
  shows "prefix (c # e') (c # m')"
proof -
  from assms(2) have "prefix (c # e') (c # m') \<or> sublist (c # e') m'"
    by (simp add: sublist_Cons_right)
  moreover have "\<not> sublist (c # e') m'"
  proof
    assume "sublist (c # e') m'"
    then have "set (c # e') \<subseteq> set m'" by (rule set_mono_sublist)
    with assms(1) show False by simp
  qed
  ultimately show ?thesis by blast
qed

lemma begin_not_in_end: "ident_ok ident \<Longrightarrow> \<not> sublist (begin_marker ident) (end_marker ident)"
proof
  assume ok: "ident_ok ident" and s: "sublist (begin_marker ident) (end_marker ident)"
  have "prefix (CHR ''#'' # tl (begin_marker ident)) (CHR ''#'' # tl (end_marker ident))"
    using hash_not_in_tl_end [OF ok] s begin_marker_Cons [of ident] end_marker_Cons [of ident]
    by (intro sublist_head_unique) simp_all
  then show False by (simp add: begin_marker_def end_marker_def)
qed

lemma end_not_in_begin: "ident_ok ident \<Longrightarrow> \<not> sublist (end_marker ident) (begin_marker ident)"
proof
  assume ok: "ident_ok ident" and s: "sublist (end_marker ident) (begin_marker ident)"
  have "prefix (CHR ''#'' # tl (end_marker ident)) (CHR ''#'' # tl (begin_marker ident))"
    using hash_not_in_tl_begin [OF ok] s begin_marker_Cons [of ident] end_marker_Cons [of ident]
    by (intro sublist_head_unique) simp_all
  then show False by (simp add: begin_marker_def end_marker_def)
qed

lemma not_sublist_tl:
  assumes "c \<notin> set m'" shows "\<not> sublist (c # m') m'"
proof
  assume "sublist (c # m') m'"
  then have "length (c # m') \<le> length m'" by (rule sublist_length_le)
  then show False by simp
qed

lemma no_overlap_behind:
  assumes "c \<notin> set m'" and "\<not> sublist (c # m') post"
  shows "\<not> sublist (c # m') (tl ((c # m') @ post))"
proof
  assume "sublist (c # m') (tl ((c # m') @ post))"
  then have "sublist (c # m') (m' @ post)" by simp
  then obtain u v where uv: "m' @ post = u @ (c # m') @ v" by (auto simp: sublist_def)
  show False
  proof (cases "length m' \<le> length u")
    case True
    from uv have "drop (length m') (m' @ post) = drop (length m') (u @ (c # m') @ v)" by simp
    with True have "post = drop (length m') u @ (c # m') @ v" by simp
    with assms(2) show False unfolding sublist_def by blast
  next
    case False
    from uv have "(m' @ post) ! length u = (u @ (c # m') @ v) ! length u" by simp
    with False have "m' ! length u = c" by (simp add: nth_append)
    with False assms(1) show False by (metis not_le nth_mem)
  qed
qed

section \<open>Facts about the removal of an entry\<close>

lemma has_span_intro: "has_span b e (pre @ b @ mid @ e @ post)"
proof (induction pre)
  case Nil
  show ?case
  proof (cases "b @ mid @ e @ post")
    case Nil
    then show ?thesis by simp
  next
    case (Cons x xs)
    have "prefix b (b @ mid @ e @ post)" by simp
    moreover have "sublist e (drop (length b) (b @ mid @ e @ post))" by simp
    ultimately have "has_span b e (x # xs)" unfolding Cons [symmetric]
      using Cons by (metis has_span.simps(2))
    with Cons show ?thesis by simp
  qed
next
  case (Cons a pre)
  then show ?case by simp
qed

lemma match_entry_has_span:
  assumes "match_here (entry_pattern ident) t = Some r" and "suffix t s"
  shows "has_span (begin_marker ident) (end_marker ident) s"
proof -
  from assms(1) obtain mid where "t = begin_marker ident @ mid @ end_marker ident @ r"
    by (blast dest: match_entry_Some)
  moreover from assms(2) obtain pre where "s = pre @ t" by (auto simp: suffix_def)
  ultimately have "s = pre @ begin_marker ident @ mid @ end_marker ident @ r" by simp
  then show ?thesis by (simp only: has_span_intro)
qed

lemma remove_no_span:
  assumes "\<not> has_span (begin_marker ident) (end_marker ident) s"
  shows "re_sub (entry_pattern ident) [] s = s"
proof (rule re_sub_no_match)
  fix t assume "suffix t s"
  with assms show "match_here (entry_pattern ident) t = None"
    by (cases "match_here (entry_pattern ident) t") (auto dest: match_entry_has_span)
qed

lemma has_span_end: "has_span b e s \<Longrightarrow> sublist e s"
proof (induction s)
  case Nil
  then show ?case by simp
next
  case (Cons x xs)
  from Cons.prems have "sublist e (drop (length b) (x # xs)) \<or> has_span b e xs" by auto
  then show ?case
  proof
    assume "sublist e (drop (length b) (x # xs))"
    moreover have "sublist (drop (length b) (x # xs)) (x # xs)"
      by (rule suffix_imp_sublist) (rule suffix_drop)
    ultimately show ?thesis by (rule sublist_order.order_trans)
  next
    assume "has_span b e xs"
    with Cons.IH have "sublist e xs" .
    then show ?thesis by (simp add: sublist_Cons_right)
  qed
qed

lemma has_span_begin: "b \<noteq> [] \<Longrightarrow> has_span b e s \<Longrightarrow> sublist b s"
proof (induction s)
  case Nil
  then show ?case by simp
next
  case (Cons x xs)
  from Cons.prems have "prefix b (x # xs) \<or> has_span b e xs" by auto
  then show ?case
  proof
    assume "prefix b (x # xs)" then show ?thesis by (rule prefix_imp_sublist)
  next
    assume "has_span b e xs"
    with Cons have "sublist b xs" by blast
    then show ?thesis by (simp add: sublist_Cons_right)
  qed
qed

lemma remove_greedy:
  assumes ok: "ident_ok ident"
    and pre: "\<not> sublist (begin_marker ident) pre"
    and mid: "mid \<noteq> []"
    and post: "\<not> sublist (end_marker ident) post"
  shows "re_sub (entry_pattern ident) []
           (pre @ begin_marker ident @ mid @ end_marker ident @ post) = pre @ post"
proof -
  let ?B = "begin_marker ident" and ?E = "end_marker ident" and ?P = "entry_pattern ident"
  let ?s = "?B @ mid @ ?E @ post"
  have skip: "re_sub ?P [] (pre @ ?s) = pre @ re_sub ?P [] ?s"
  proof (rule re_sub_skip)
    fix t assume t: "t \<noteq> []" "suffix t pre"
    have "\<not> prefix (CHR ''#'' # tl ?B) (t @ CHR ''#'' # (tl ?B @ mid @ ?E @ post))"
      using hash_not_in_tl_begin [OF ok] pre t begin_marker_Cons [of ident]
      by (intro no_straddle) simp_all
    then have "\<not> prefix ?B (t @ ?s)"
      using begin_marker_Cons [of ident] by (metis append_Cons)
    then show "match_here ?P (t @ ?s) = None"
      unfolding entry_pattern_def by (rule match_lits_not_prefix)
  qed
  have "\<not> sublist (CHR ''#'' # tl ?E) (tl ((CHR ''#'' # tl ?E) @ post))"
    using hash_not_in_tl_end [OF ok] post end_marker_Cons [of ident]
    by (intro no_overlap_behind) simp_all
  then have "\<not> sublist ?E (tl (?E @ post))"
    using end_marker_Cons [of ident] by simp
  with mid have m: "match_here ?P ?s = Some post" by (rule match_entry_greedy)
  have "length post < length ?s" by (simp add: begin_marker_def)
  with m have "re_sub ?P [] ?s = [] @ re_sub ?P [] post" by (rule re_sub_match)
  moreover have "re_sub ?P [] post = post"
    using post by (intro remove_no_span) (blast dest: has_span_end)
  ultimately show ?thesis using skip by simp
qed

lemma remove_file:
  "fs filepath = Some content \<Longrightarrow>
   remove_entry_from_config fs filepath ident =
     Inr (fs(filepath \<mapsto> re_sub (entry_pattern ident) [] content))"
  by (simp add: remove_entry_from_config_def replace_in_file_def)

lemma add_file:
  "fs filepath = Some content \<Longrightarrow>
   add_entry_to_config fs entry filepath ident =
     Inr (fs(filepath \<mapsto> re_sub (entry_pattern ident) [] content @ entry_block ident entry))"
  by (simp add: add_entry_to_config_def remove_file append_to_file_def)

section \<open>Facts about sequences of editor calls\<close>

lemma occurrences_none: "m \<noteq> [] \<Longrightarrow> \<not> sublist m s \<Longrightarrow> occurrences m s = 0"
  by (induction s) (auto simp: sublist_Cons_right)

lemma occurrences_across_char:
  assumes "c \<notin> set m" and "m \<noteq> []"
  shows "occurrences m (x @ c # y) = occurrences m x + occurrences m y"
proof (induction x)
  case Nil
  have "\<not> prefix m (c # y)" using assms by (cases m) auto
  with assms(2) show ?case by simp
next
  case (Cons a x)
  have "prefix m (a # x @ c # y) \<longleftrightarrow> prefix m (a # x)"
  proof
    assume "prefix m (a # x @ c # y)"
    then have "prefix m ((a # x) @ c # y)" by simp
    with assms(1) show "prefix m (a # x)" by (rule prefix_before_char)
  next
    assume "prefix m (a # x)"
    then have "prefix m ((a # x) @ c # y)" by (rule prefix_prefix)
    then show "prefix m (a # x @ c # y)" by simp
  qed
  with Cons show ?case by simp
qed

lemma occurrences_skip:
  "(\<And>t. t \<noteq> [] \<Longrightarrow> suffix t pre \<Longrightarrow> \<not> prefix m (t @ s))
   \<Longrightarrow> occurrences m (pre @ s) = occurrences m s"
proof (induction pre)
  case Nil
  then show ?case by simp
next
  case (Cons x xs)
  have "\<not> prefix m ((x # xs) @ s)" using Cons.prems by blast
  moreover have "occurrences m (xs @ s) = occurrences m s"
    using Cons.prems by (intro Cons.IH) (simp add: suffix_Cons)
  ultimately show ?case by simp
qed

lemma occurrences_self: "c \<notin> set m' \<Longrightarrow> occurrences (c # m') (c # m') = 1"
  using not_sublist_tl [of c m'] by (simp add: occurrences_none)

lemma entry_count_le: "entry_count ident s \<le> occurrences (begin_marker ident) s"
  by (induction s) auto

lemma occurrences_behind_text:
  assumes "c \<notin> set m'" and "\<not> sublist (c # m') pre"
  shows "occurrences (c # m') (pre @ c # rest) = occurrences (c # m') (c # rest)"
  using assms by (intro occurrences_skip no_straddle)

lemma block_occurrences_begin:
  assumes ok: "ident_ok ident"
    and m: "\<not> sublist (begin_marker ident) m" and e: "\<not> sublist (begin_marker ident) e"
  shows "occurrences (begin_marker ident) (m @ entry_block ident e) = 1"
proof -
  let ?B = "begin_marker ident" and ?E = "end_marker ident"
  have ne: "?B \<noteq> []" by (simp add: begin_marker_def)
  note nl = NL_not_in_begin [OF ok]
  have "m @ entry_block ident e = (m @ ?B) @ NL # (e @ NL # (?E @ NL # []))"
    by (simp add: entry_block_def)
  then have "occurrences ?B (m @ entry_block ident e)
      = occurrences ?B (m @ ?B) + (occurrences ?B e + (occurrences ?B ?E + occurrences ?B []))"
    by (simp only: occurrences_across_char [OF nl ne])
  moreover have "occurrences ?B e = 0" using ne e by (rule occurrences_none)
  moreover have "occurrences ?B ?E = 0"
    using ne begin_not_in_end [OF ok] by (rule occurrences_none)
  moreover have "occurrences ?B [] = 0" using ne by simp
  moreover have "occurrences ?B (m @ ?B) = 1"
  proof -
    have "occurrences (CHR ''#'' # tl ?B) (m @ CHR ''#'' # tl ?B)
        = occurrences (CHR ''#'' # tl ?B) (CHR ''#'' # tl ?B)"
      using hash_not_in_tl_begin [OF ok] m begin_marker_Cons [of ident]
      by (intro occurrences_behind_text) simp_all
    also have "\<dots> = 1" using hash_not_in_tl_begin [OF ok] by (rule occurrences_self)
    finally show ?thesis using begin_marker_Cons [of ident] by simp
  qed
  ultimately show ?thesis by simp
qed

lemma block_occurrences_end:
  assumes ok: "ident_ok ident"
    and m: "\<not> sublist (end_marker ident) m" and e: "\<not> sublist (end_marker ident) e"
  shows "occurrences (end_marker ident) (m @ entry_block ident e) = 1"
proof -
  let ?B = "begin_marker ident" and ?E = "end_marker ident"
  have ne: "?E \<noteq> []" by (simp add: end_marker_def)
  note nl = NL_not_in_end [OF ok]
  have "m @ entry_block ident e = (m @ ?B) @ NL # (e @ NL # (?E @ NL # []))"
    by (simp add: entry_block_def)
  then have "occurrences ?E (m @ entry_block ident e)
      = occurrences ?E (m @ ?B) + (occurrences ?E e + (occurrences ?E ?E + occurrences ?E []))"
    by (simp only: occurrences_across_char [OF nl ne])
  moreover have "occurrences ?E e = 0" using ne e by (rule occurrences_none)
  moreover have "occurrences ?E ?E = 1"
    using occurrences_self [OF hash_not_in_tl_end [OF ok]] end_marker_Cons [of ident] by simp
  moreover have "occurrences ?E [] = 0" using ne by simp
  moreover have "occurrences ?E (m @ ?B) = 0"
  proof -
    have "occurrences (CHR ''#'' # tl ?E) (m @ CHR ''#'' # tl ?B)
        = occurrences (CHR ''#'' # tl ?E) (CHR ''#'' # tl ?B)"
      using hash_not_in_tl_end [OF ok] m end_marker_Cons [of ident]
      by (intro occurrences_behind_text) simp_all
    then have "occurrences ?E (m @ ?B) = occurrences ?E ?B"
      using begin_marker_Cons [of ident] end_marker_Cons [of ident] by simp
    also have "\<dots> = 0" using ne end_not_in_begin [OF ok] by (rule occurrences_none)
    finally show ?thesis .
  qed
  ultimately show ?thesis by simp
qed


lemma marker_free_line:
  assumes ok: "ident_ok ident" and m: "marker_free ident m"
  shows "marker_free ident (m @ [NL])"
proof -
  have "\<not> sublist (begin_marker ident) (m @ NL # [])"
    using m sublist_across_char [OF NL_not_in_begin [OF ok], of m "[]"]
    by (simp add: marker_free_def begin_marker_def)
  moreover have "\<not> sublist (end_marker ident) (m @ NL # [])"
    using m sublist_across_char [OF NL_not_in_end [OF ok], of m "[]"]
    by (simp add: marker_free_def end_marker_def)
  ultimately show ?thesis by (simp add: marker_free_def)
qed

lemma remove_marker_free:
  assumes "marker_free ident c"
  shows "re_sub (entry_pattern ident) [] c = c"
  using assms by (intro remove_no_span) (auto simp: marker_free_def dest: has_span_end)

lemma remove_block:
  assumes ok: "ident_ok ident" and m: "marker_free ident m"
  shows "re_sub (entry_pattern ident) [] (m @ entry_block ident e) = m @ [NL]"
proof -
  have "\<not> sublist (end_marker ident) [NL]"
  proof
    assume "sublist (end_marker ident) [NL]"
    then have "length (end_marker ident) \<le> length [NL]" by (rule sublist_length_le)
    then show False by (simp add: end_marker_def)
  qed
  moreover have "\<not> sublist (begin_marker ident) m" using m by (simp add: marker_free_def)
  ultimately have "re_sub (entry_pattern ident) []
      (m @ begin_marker ident @ (NL # e @ [NL]) @ end_marker ident @ [NL]) = m @ [NL]"
    using ok by (intro remove_greedy) simp_all
  then show ?thesis by (simp add: entry_block_def)
qed

lemma managed_removed:
  assumes ok: "ident_ok ident"
    and inv: "marker_free ident c
       \<or> (\<exists>m e. c = m @ entry_block ident e \<and> marker_free ident m \<and> marker_free ident e)"
  shows "marker_free ident (re_sub (entry_pattern ident) [] c)"
  using inv
proof
  assume "marker_free ident c"
  then show ?thesis by (simp add: remove_marker_free)
next
  assume "\<exists>m e. c = m @ entry_block ident e \<and> marker_free ident m \<and> marker_free ident e"
  then obtain m e where "c = m @ entry_block ident e" and "marker_free ident m" by blast
  with ok show ?thesis by (simp add: remove_block marker_free_line)
qed

lemma managed_edit:
  assumes ok: "ident_ok ident" and cont: "fs filepath = Some c"
    and inv: "marker_free ident c
       \<or> (\<exists>m e. c = m @ entry_block ident e \<and> marker_free ident m \<and> marker_free ident e)"
    and ed: "plain_edit ident ed"
  shows "\<exists>fs' c'. apply_edit filepath ident fs ed = Inr fs' \<and> fs' filepath = Some c'
     \<and> (marker_free ident c'
       \<or> (\<exists>m e. c' = m @ entry_block ident e \<and> marker_free ident m \<and> marker_free ident e))"
proof (cases ed)
  case (Add entry)
  let ?kept = "re_sub (entry_pattern ident) [] c"
  have "apply_edit filepath ident fs ed
      = Inr (fs(filepath \<mapsto> ?kept @ entry_block ident entry))"
    using cont Add by (simp add: add_file)
  moreover have "marker_free ident ?kept" using ok inv by (rule managed_removed)
  moreover have "marker_free ident entry" using ed Add by simp
  ultimately show ?thesis by auto
next
  case Remove
  let ?kept = "re_sub (entry_pattern ident) [] c"
  have "apply_edit filepath ident fs ed = Inr (fs(filepath \<mapsto> ?kept))"
    using cont Remove by (simp add: remove_file)
  moreover have "marker_free ident ?kept" using ok inv by (rule managed_removed)
  ultimately show ?thesis by auto
qed

lemma managed_edits:
  assumes ok: "ident_ok ident"
  shows "fs filepath = Some c
    \<Longrightarrow> marker_free ident c
       \<or> (\<exists>m e. c = m @ entry_block ident e \<and> marker_free ident m \<and> marker_free ident e)
    \<Longrightarrow> list_all (plain_edit ident) eds
    \<Longrightarrow> \<exists>fs' c'. apply_edits filepath ident fs eds = Inr fs' \<and> fs' filepath = Some c'
     \<and> (marker_free ident c'
       \<or> (\<exists>m e. c' = m @ entry_block ident e \<and> marker_free ident m \<and> marker_free ident e))"
proof (induction eds arbitrary: fs c)
  case Nil
  then show ?case by simp
next
  case (Cons ed eds)
  from Cons.prems(3) have ed: "plain_edit ident ed" and eds: "list_all (plain_edit ident) eds"
    by simp_all
  from managed_edit [where fs = fs and filepath = filepath, OF ok Cons.prems(1) Cons.prems(2) ed]
  obtain fs1 c1 where step: "apply_edit filepath ident fs ed = Inr fs1"
    and file1: "fs1 filepath = Some c1"
    and inv1: "marker_free ident c1
       \<or> (\<exists>m e. c1 = m @ entry_block ident e \<and> marker_free ident m \<and> marker_free ident e)"
    by blast
  from Cons.IH [of fs1 c1, OF file1 inv1 eds] step show ?case by simp
qed

lemma managed_count:
  assumes ok: "ident_ok ident"
    and inv: "marker_free ident c
       \<or> (\<exists>m e. c = m @ entry_block ident e \<and> marker_free ident m \<and> marker_free ident e)"
  shows "occurrences (begin_marker ident) c \<le> 1 \<and> occurrences (end_marker ident) c \<le> 1"
  using inv
proof
  assume "marker_free ident c"
  then have "occurrences (begin_marker ident) c = 0" and "occurrences (end_marker ident) c = 0"
    by (simp_all add: marker_free_def occurrences_none begin_marker_def end_marker_def)
  then show ?thesis by simp
next
  assume "\<exists>m e. c = m @ entry_block ident e \<and> marker_free ident m \<and> marker_free ident e"
  then obtain m e where "c = m @ entry_block ident e"
    and "marker_free ident m" and "marker_free ident e" by blast
  with ok show ?thesis
    by (simp add: marker_free_def block_occurrences_begin block_occurrences_end)
qed

section \<open>Properties of the block editor\<close>



text \<open>
  Two blocks of one identifier with a line of other text between them: the removal
  deletes everything from the first begin marker to the last end marker, the line
  between the blocks with them, and keeps only the line feed behind the last marker.
\<close>

theorem remove_two_blocks_counterexample:
  "content_after
     (remove_entry_from_config
        (single_file ''f''
           (entry_block ''rpiwifi'' ''a'' @ ''KEEP'' @ [NL] @ entry_block ''rpiwifi'' ''b''))
        ''f'' ''rpiwifi'') ''f''
   = Some [NL]"
  by code_simp

text \<open>
  C3, as the code has it. The pattern's \<^verbatim>\<open>.+\<close> is greedy: when the content is
  \<open>pre\<close>, the first begin marker, a non-empty text \<open>mid\<close>, the last end marker and
  \<open>post\<close>, \<^verbatim>\<open>remove_entry_from_config\<close> leaves \<open>pre @ post\<close>, whatever \<open>mid\<close> holds,
  further markers and the text between two blocks included.
\<close>

theorem remove_first_begin_to_last_end:
  assumes "ident_ok ident"
    and "fs filepath = Some (pre @ begin_marker ident @ mid @ end_marker ident @ post)"
    and "\<not> sublist (begin_marker ident) pre"
    and "mid \<noteq> []"
    and "\<not> sublist (end_marker ident) post"
  shows "remove_entry_from_config fs filepath ident = Inr (fs(filepath \<mapsto> pre @ post))"
  using remove_greedy [OF assms(1,3,4,5)] assms(2) by (simp add: remove_file)

theorem remove_first_begin_to_last_end_witness:
  "ident_ok ''rpiwifi''
   \<and> \<not> sublist (begin_marker ''rpiwifi'') ''head''
   \<and> [NL] @ ''a'' @ [NL] @ end_marker ''rpiwifi'' @ [NL] @ ''KEEP'' @ [NL]
        @ begin_marker ''rpiwifi'' @ [NL] @ ''b'' @ [NL] \<noteq> []
   \<and> \<not> sublist (end_marker ''rpiwifi'') ''tail''
   \<and> content_after
        (remove_entry_from_config
           (single_file ''f''
              (''head'' @ entry_block ''rpiwifi'' ''a'' @ ''KEEP'' @ [NL]
                 @ begin_marker ''rpiwifi'' @ [NL] @ ''b'' @ [NL] @ end_marker ''rpiwifi''
                 @ ''tail''))
           ''f'' ''rpiwifi'') ''f''
      = Some ''headtail''"
proof -
  let ?mid = "[NL] @ ''a'' @ [NL] @ end_marker ''rpiwifi'' @ [NL] @ ''KEEP'' @ [NL]
        @ begin_marker ''rpiwifi'' @ [NL] @ ''b'' @ [NL]"
  let ?c = "''head'' @ begin_marker ''rpiwifi'' @ ?mid @ end_marker ''rpiwifi'' @ ''tail''"
  have h1: "ident_ok ''rpiwifi''" by code_simp
  have h2: "single_file ''f'' ?c ''f'' = Some ?c" by (simp add: single_file_def)
  have h3: "\<not> sublist (begin_marker ''rpiwifi'') ''head''" by code_simp
  have h4: "?mid \<noteq> []" by simp
  have h5: "\<not> sublist (end_marker ''rpiwifi'') ''tail''" by code_simp
  have c: "''head'' @ entry_block ''rpiwifi'' ''a'' @ ''KEEP'' @ [NL]
                 @ begin_marker ''rpiwifi'' @ [NL] @ ''b'' @ [NL] @ end_marker ''rpiwifi''
                 @ ''tail'' = ?c" by (simp add: entry_block_def)
  from remove_first_begin_to_last_end
    [where fs = "single_file ''f'' ?c" and filepath = "''f''", OF h1 h2 h3 h4 h5] h1 h3 h4 h5
  show ?thesis
    unfolding c by (simp add: content_after_def single_file_def)
qed

text \<open>
  C1. \<^verbatim>\<open>add_entry_to_config\<close> and then \<^verbatim>\<open>remove_entry_from_config\<close> on a file without
  markers should give back the content of the file. The block is written with a line
  feed behind its end marker, and the pattern of the removal ends at the end marker:
  on the content \<^verbatim>\<open>abc\<close> the two calls leave \<^verbatim>\<open>abc\<close> and a line feed.
\<close>

theorem add_then_remove_leaves_newline:
  "content_after
     (apply_edits ''f'' ''rpiwifi'' (single_file ''f'' ''abc'') [Add ''x'', Remove]) ''f''
   = Some (''abc'' @ [NL])"
  by code_simp

text \<open>
  C2. Adding the same entry twice should give the file that adding it once gives. The
  second call removes the first block up to its end marker and leaves the line feed
  behind it, so the block of the second call stands one line feed further down.
\<close>

theorem add_twice_differs_from_add_once:
  "content_after
     (apply_edits ''f'' ''rpiwifi'' (single_file ''f'' ''abc'') [Add ''x'', Add ''x'']) ''f''
     = Some (''abc'' @ [NL] @ entry_block ''rpiwifi'' ''x'')
   \<and> content_after
     (apply_edits ''f'' ''rpiwifi'' (single_file ''f'' ''abc'') [Add ''x'']) ''f''
     = Some (''abc'' @ entry_block ''rpiwifi'' ''x'')"
  by code_simp



text \<open>
  C4, as the code has it. Start from a file without markers of the identifier and apply
  any sequence of \<^verbatim>\<open>add_entry_to_config\<close> and \<^verbatim>\<open>remove_entry_from_config\<close> calls whose
  entry texts hold no marker of the identifier. Every call succeeds, and in the end the
  file holds at most one begin marker and at most one end marker, hence at most one
  delimited entry.
\<close>

theorem at_most_one_entry:
  assumes "ident_ok ident" and "fs filepath = Some content"
    and "marker_free ident content" and "list_all (plain_edit ident) edits"
  shows "\<exists>fs' final.
           apply_edits filepath ident fs edits = Inr fs' \<and> fs' filepath = Some final
         \<and> entry_count ident final \<le> 1
         \<and> occurrences (begin_marker ident) final \<le> 1
         \<and> occurrences (end_marker ident) final \<le> 1"
proof -
  from assms(3) have "marker_free ident content
       \<or> (\<exists>m e. content = m @ entry_block ident e \<and> marker_free ident m \<and> marker_free ident e)"
    by simp
  from managed_edits [where fs = fs and filepath = filepath, OF assms(1,2) this assms(4)]
  obtain fs' final where res: "apply_edits filepath ident fs edits = Inr fs'"
    "fs' filepath = Some final"
    and inv: "marker_free ident final
       \<or> (\<exists>m e. final = m @ entry_block ident e \<and> marker_free ident m \<and> marker_free ident e)"
    by blast
  from managed_count [OF assms(1) inv]
  have c: "occurrences (begin_marker ident) final \<le> 1" "occurrences (end_marker ident) final \<le> 1"
    by simp_all
  from entry_count_le [of ident final] c(1) have "entry_count ident final \<le> 1" by simp
  with res c show ?thesis by blast
qed

text \<open>
  The editor writes the entry text as it is. One call with an entry text that spells an
  end marker and then a begin marker leaves two begin markers in the file, each closed by
  an end marker.
\<close>

theorem entry_with_markers_counterexample:
  "map_option (entry_count ''rpiwifi'')
     (content_after
        (apply_edits ''f'' ''rpiwifi'' (single_file ''f'' [])
           [Add (''a'' @ [NL] @ end_marker ''rpiwifi'' @ [NL] @ ''b'' @ [NL]
                   @ begin_marker ''rpiwifi'' @ [NL] @ ''c'')]) ''f'')
   = Some 2"
  by code_simp

theorem at_most_one_entry_witness:
  "map_option (entry_count ''rpiwifi'')
     (content_after
        (apply_edits ''f'' ''rpiwifi'' (single_file ''f'' ''abc'')
           [Add ''x'', Add ''y'', Remove, Add ''z'']) ''f'')
   = Some 1"
proof -
  have h1: "ident_ok ''rpiwifi''" by code_simp
  have h2: "single_file ''f'' ''abc'' ''f'' = Some ''abc''" by (simp add: single_file_def)
  have h3: "marker_free ''rpiwifi'' ''abc''" by code_simp
  have h4: "list_all (plain_edit ''rpiwifi'') [Add ''x'', Add ''y'', Remove, Add ''z'']"
    by code_simp
  from at_most_one_entry
    [where fs = "single_file ''f'' ''abc''" and filepath = "''f''", OF h1 h2 h3 h4]
  obtain fs' final where
    "apply_edits ''f'' ''rpiwifi'' (single_file ''f'' ''abc'')
       [Add ''x'', Add ''y'', Remove, Add ''z''] = Inr fs'"
    and "fs' ''f'' = Some final" and "entry_count ''rpiwifi'' final \<le> 1" by blast
  moreover have "map_option (entry_count ''rpiwifi'')
     (content_after
        (apply_edits ''f'' ''rpiwifi'' (single_file ''f'' ''abc'')
           [Add ''x'', Add ''y'', Remove, Add ''z'']) ''f'')
   = Some 1" by code_simp
  ultimately show ?thesis by simp
qed

section \<open>Facts about the scanner\<close>

lemma dict_set_keys_present:
  "k \<in> set (map fst d) \<Longrightarrow> map fst (dict_set k v d) = map fst d"
  by (induction d) force+

lemma dict_set_keys_new:
  "k \<notin> set (map fst d) \<Longrightarrow> map fst (dict_set k v d) = map fst d @ [k]"
  by (induction d) auto

lemma dict_set_keys:
  "map fst (dict_set k v d) = (if k \<in> set (map fst d) then map fst d else map fst d @ [k])"
  using dict_set_keys_present [of k d v] dict_set_keys_new [of k d v] by simp

lemma dict_set_distinct: "distinct (map fst d) \<Longrightarrow> distinct (map fst (dict_set k v d))"
  by (simp add: dict_set_keys)

lemma dict_set_map_of: "map_of (dict_set k v d) = (map_of d)(k \<mapsto> v)"
  by (induction d) (auto simp: fun_eq_iff)

lemma fold_dict_snoc:
  "fold (\<lambda>c d. dict_set (ssid c) c d) (cells @ [x]) []
     = dict_set (ssid x) x (fold (\<lambda>c d. dict_set (ssid c) c d) cells [])"
  by simp

lemma dict_distinct: "distinct (map fst (fold (\<lambda>c d. dict_set (ssid c) c d) cells []))"
  by (induction cells rule: rev_induct) (simp_all add: dict_set_distinct)

lemma dict_lookup:
  "map_of (fold (\<lambda>c d. dict_set (ssid c) c d) cells []) k
     = (if k \<in> set (map ssid cells)
        then Some (last (filter (\<lambda>c. ssid c = k) cells)) else None)"
proof (induction cells rule: rev_induct)
  case Nil
  then show ?case by simp
next
  case (snoc x cells)
  then show ?case by (auto simp: dict_set_map_of)
qed

lemma last_filter_satisfies:
  "filter P xs \<noteq> [] \<Longrightarrow> P (last (filter P xs))"
  by (drule last_in_set) simp

lemma dict_entry:
  assumes "(k, v) \<in> set (fold (\<lambda>c d. dict_set (ssid c) c d) cells [])"
  shows "v = last (filter (\<lambda>c. ssid c = k) cells) \<and> ssid v = k \<and> k \<in> set (map ssid cells)"
proof -
  let ?d = "fold (\<lambda>c d. dict_set (ssid c) c d) cells []"
  from assms have "map_of ?d k = Some v" using dict_distinct [of cells] by simp
  then have k: "k \<in> set (map ssid cells)" and v: "v = last (filter (\<lambda>c. ssid c = k) cells)"
    by (auto simp: dict_lookup split: if_splits)
  from k have "filter (\<lambda>c. ssid c = k) cells \<noteq> []" by (auto simp: filter_empty_conv)
  then have "ssid (last (filter (\<lambda>c. ssid c = k) cells)) = k"
    by (rule last_filter_satisfies [where P = "\<lambda>c. ssid c = k"])
  with k v show ?thesis by simp
qed

lemma unique_cells_names:
  "map ssid (unique_cells cells) = map fst (fold (\<lambda>c d. dict_set (ssid c) c d) cells [])"
proof -
  let ?d = "fold (\<lambda>c d. dict_set (ssid c) c d) cells []"
  have "ssid (snd p) = fst p" if "p \<in> set ?d" for p
  proof -
    from that have "(fst p, snd p) \<in> set ?d" by simp
    then show ?thesis by (blast dest: dict_entry)
  qed
  then have "map (\<lambda>p. ssid (snd p)) ?d = map fst ?d" by (simp cong: map_cong)
  then show ?thesis by (simp add: unique_cells_def dict_values_def comp_def)
qed

lemma unique_cells_distinct: "distinct (map ssid (unique_cells cells))"
  by (simp add: unique_cells_names dict_distinct)

lemma unique_cells_name_set: "set (map ssid (unique_cells cells)) = set (map ssid cells)"
proof -
  have "set (map fst (fold (\<lambda>c d. dict_set (ssid c) c d) cells [])) = set (map ssid cells)"
    by (induction cells rule: rev_induct) (auto simp: dict_set_keys)
  then show ?thesis by (simp only: unique_cells_names)
qed

lemma unique_cells_last:
  "c \<in> set (unique_cells cells) \<Longrightarrow> c = last (filter (\<lambda>d. ssid d = ssid c) cells)"
  unfolding unique_cells_def dict_values_def
  by (auto dest: dict_entry)

lemma insort_reverse_set: "set (insort_reverse key x ys) = insert x (set ys)"
  by (induction ys) auto

lemma sort_reverse_set: "set (sort_reverse key xs) = set xs"
  unfolding sort_reverse_def by (induction xs) (simp_all add: insort_reverse_set)

lemma insort_reverse_distinct:
  "distinct (map f (insort_reverse key x ys)) \<longleftrightarrow> distinct (map f (x # ys))"
  by (induction ys) (auto simp: insort_reverse_set)

lemma sort_reverse_distinct:
  "distinct (map f (sort_reverse key xs)) \<longleftrightarrow> distinct (map f xs)"
  unfolding sort_reverse_def
  by (induction xs) (simp_all add: insort_reverse_distinct insort_reverse_set sort_reverse_set [unfolded sort_reverse_def])

lemma insort_reverse_sorted:
  "sorted_wrt (\<lambda>a b. key b \<le> key a) ys
   \<Longrightarrow> sorted_wrt (\<lambda>a b. key b \<le> key a) (insort_reverse key x ys)"
  by (induction ys) (auto simp: insort_reverse_set)

lemma sort_reverse_sorted: "sorted_wrt (\<lambda>a b. key b \<le> key a) (sort_reverse key xs)"
  unfolding sort_reverse_def by (induction xs) (simp_all add: insort_reverse_sorted)

section \<open>Facts about the passphrase scrubber and the client-mode transition\<close>




























text \<open>
  A comment line whose password holds a double quote does not match the pattern, since
  the class \<^verbatim>\<open>[^\n"]\<close> stops at the quote: the substitution keeps such a line.
\<close>

lemma scrub_keeps_quoted_passphrase:
  "scrub ([TAB] @ psk_comment @ ''pass'' @ [DQ] @ ''word1'' @ [DQ, NL])
     = [TAB] @ psk_comment @ ''pass'' @ [DQ] @ ''word1'' @ [DQ, NL]"
  by code_simp

section \<open>Properties of the controller and of the scanner\<close>

text \<open>
  C6. With no password, or with the empty password, \<^verbatim>\<open>set_cli_mode\<close> returns
  \<^verbatim>\<open>False\<close> for every \<^verbatim>\<open>ssid\<close>: it prints the warning and does nothing else, so the
  managed files and the list of invoked programs are what they were.
\<close>

theorem set_cli_mode_without_password:
  assumes "password = None \<or> password = Some []"
  shows "set_cli_mode env iface ssid' password w
           = (Inr False, w\<lparr>printed := printed w @ [warning]\<rparr>)
         \<and> files (snd (set_cli_mode env iface ssid' password w)) = files w
         \<and> invoked (snd (set_cli_mode env iface ssid' password w)) = invoked w"
  using assms by (auto simp: set_cli_mode_def)

theorem set_cli_mode_without_password_witness:
  "set_cli_mode (\<lambda>cmd. Some []) ''wlan0'' (Some ''x'') None
     \<lparr>files = single_file DHCPCD_CONF ''hostname'', invoked = [], printed = []\<rparr>
   = (Inr False,
      \<lparr>files = single_file DHCPCD_CONF ''hostname'', invoked = [], printed = [warning]\<rparr>)"
  using set_cli_mode_without_password
    [of None "\<lambda>cmd. Some []" "''wlan0''" "Some ''x''"
      "\<lparr>files = single_file DHCPCD_CONF ''hostname'', invoked = [], printed = []\<rparr>"]
  by simp

text \<open>
  C8. \<^verbatim>\<open>get_mode\<close> returns \<^verbatim>\<open>AP_MODE\<close> exactly when the query of the access-point
  daemon exits with status 0 and \<^verbatim>\<open>CLI_MODE\<close> exactly when it exits with any other
  status; it returns nothing else.
\<close>

theorem get_mode_two_values:
  "(get_mode call = AP_MODE \<longleftrightarrow> call [''systemctl'', ''-q'', ''is-active'', ''hostapd''] = 0)
   \<and> (get_mode call = CLI_MODE
        \<longleftrightarrow> call [''systemctl'', ''-q'', ''is-active'', ''hostapd''] \<noteq> 0)
   \<and> (get_mode call = AP_MODE \<or> get_mode call = CLI_MODE)"
  by (simp add: get_mode_def AP_MODE_def CLI_MODE_def)

theorem get_mode_two_values_witness:
  "get_mode (\<lambda>cmd. 3) = CLI_MODE \<and> get_mode (\<lambda>cmd. 0) = AP_MODE"
  using get_mode_two_values [of "\<lambda>cmd. 3"] get_mode_two_values [of "\<lambda>cmd. 0"]
  by simp

text \<open>
  C5. When the scan loop ends with the cells \<open>cells\<close>, \<^verbatim>\<open>list_available_wifis\<close> returns
  a list with one cell for each network name of \<open>cells\<close>, that cell being the last one
  of \<open>cells\<close> with the name, in the order of descending quality. On the cells A/3, B/5,
  A/7 the list is A/7, B/5.
\<close>

theorem list_available_wifis_dedup_sorted:
  assumes "scan_loop scan env iface [0, 1, 2] w = (Inr cells, w')"
  shows "\<exists>result.
           list_available_wifis scan env iface w = (Inr result, w')
         \<and> distinct (map ssid result)
         \<and> set (map ssid result) = set (map ssid cells)
         \<and> (\<forall>c \<in> set result. c = last (filter (\<lambda>d. ssid d = ssid c) cells))
         \<and> sorted_wrt (\<lambda>a b. quality b \<le> quality a) result
         \<and> sort_reverse quality (unique_cells
              [\<lparr>ssid = ''A'', quality = 3::nat\<rparr>, \<lparr>ssid = ''B'', quality = 5\<rparr>,
               \<lparr>ssid = ''A'', quality = 7\<rparr>])
            = [\<lparr>ssid = ''A'', quality = 7\<rparr>, \<lparr>ssid = ''B'', quality = 5\<rparr>]"
proof -
  let ?r = "sort_reverse quality (unique_cells cells)"
  have "list_available_wifis scan env iface w = (Inr ?r, w')"
    using assms by (simp add: list_available_wifis_def)
  moreover have "distinct (map ssid ?r)"
    by (simp add: sort_reverse_distinct unique_cells_distinct)
  moreover have "set (map ssid ?r) = set (map ssid cells)"
    using unique_cells_name_set [of cells] by (simp add: sort_reverse_set)
  moreover have "\<forall>c \<in> set ?r. c = last (filter (\<lambda>d. ssid d = ssid c) cells)"
    by (simp add: sort_reverse_set unique_cells_last)
  moreover have "sorted_wrt (\<lambda>a b. quality b \<le> quality a) ?r"
    by (rule sort_reverse_sorted)
  moreover have "sort_reverse quality (unique_cells
              [\<lparr>ssid = ''A'', quality = 3::nat\<rparr>, \<lparr>ssid = ''B'', quality = 5\<rparr>,
               \<lparr>ssid = ''A'', quality = 7\<rparr>])
            = [\<lparr>ssid = ''A'', quality = 7\<rparr>, \<lparr>ssid = ''B'', quality = 5\<rparr>]"
    by (simp add: sort_reverse_def unique_cells_def dict_values_def)
  ultimately show ?thesis by blast
qed

theorem list_available_wifis_dedup_sorted_witness:
  "list_available_wifis
     (\<lambda>i. if i = 0 then None
          else Some [\<lparr>ssid = ''A'', quality = 3::nat\<rparr>, \<lparr>ssid = ''B'', quality = 5\<rparr>,
                     \<lparr>ssid = ''A'', quality = 7\<rparr>])
     (\<lambda>cmd. Some []) ''wlan0'' \<lparr>files = Map.empty, invoked = [], printed = []\<rparr>
   = (Inr [\<lparr>ssid = ''A'', quality = 7\<rparr>, \<lparr>ssid = ''B'', quality = 5\<rparr>],
      \<lparr>files = Map.empty, invoked = [[''ifconfig'', ''wlan0'', ''up'']], printed = []\<rparr>)"
proof -
  let ?scan = "\<lambda>i::nat. if i = 0 then None
          else Some [\<lparr>ssid = ''A'', quality = 3::nat\<rparr>, \<lparr>ssid = ''B'', quality = 5\<rparr>,
                     \<lparr>ssid = ''A'', quality = 7\<rparr>]"
  let ?w = "\<lparr>files = Map.empty, invoked = [], printed = []\<rparr>"
  let ?w' = "\<lparr>files = Map.empty, invoked = [[''ifconfig'', ''wlan0'', ''up'']], printed = []\<rparr>"
  have h: "scan_loop ?scan (\<lambda>cmd. Some []) ''wlan0'' [0, 1, 2] ?w
         = (Inr [\<lparr>ssid = ''A'', quality = 3::nat\<rparr>, \<lparr>ssid = ''B'', quality = 5\<rparr>,
                     \<lparr>ssid = ''A'', quality = 7\<rparr>], ?w')"
    by (simp add: run_def)
  from list_available_wifis_dedup_sorted [OF h] obtain result
    where r: "list_available_wifis ?scan (\<lambda>cmd. Some []) ''wlan0'' ?w = (Inr result, ?w')"
    by blast
  have "list_available_wifis ?scan (\<lambda>cmd. Some []) ''wlan0'' ?w
      = (Inr [\<lparr>ssid = ''A'', quality = 7\<rparr>, \<lparr>ssid = ''B'', quality = 5\<rparr>], ?w')"
    by (simp add: list_available_wifis_def run_def sort_reverse_def unique_cells_def
        dict_values_def)
  with r show ?thesis by simp
qed



end
